theory Spec2Isabelle
  imports Main "HOL-Library.Word" "HOL-Library.Signed_Division"
    "HOL-Library.Char_ord" "HOL-Library.List_Lexorder"
begin

section \<open>The command hook of the Java agent (ProcessBuilderHook.java)\<close>

subsection \<open>Data\<close>

text \<open>
  A Java \<open>byte\<close> is an 8-bit value and a \<open>byte[]\<close> reference may be null, so a byte array
  is a \<open>byte list option\<close>. A Java \<open>String\<close> reference may be null as well: the elements
  of the command list are \<open>string option\<close>, and the list itself is optional.
\<close>

type_synonym byte = "8 word"

datatype throwable = Throwable (getMessage: string)

text \<open>
  The values stored in the script object handed to the checker: the joined command
  string and the array of stack frames.
\<close>

datatype jsvalue = JSString string | JSArray "string list"

type_synonym scriptable = "string \<rightharpoonup> jsvalue"

text \<open>
  Modelled from the spec: the enumeration \<open>CheckParameter.Type\<close> is not among the files
  at hand. The hook only ever passes \<open>COMMAND\<close>; the other members are the ones the
  specification lists for the type tag of a check parameter.
\<close>

datatype check_type = COMMAND | FILE | SQL | DESERIALIZATION

text \<open>
  The collaborators of the hook are not part of the hook's source file. Each call that
  the hook makes into them is a field of the environment: \<open>None\<close> (or \<open>Inr\<close>) when the
  call returns, \<open>Some t\<close> (or \<open>Inl t\<close>) when it throws \<open>t\<close>.
\<close>

record hook_env =
  enterAndInitContext :: "throwable option"
  newObject :: "throwable option"
  REFLECTION_STACK_START_INDEX :: int
  getPluginMaxStack :: int
  getStackTraceArray :: "int \<Rightarrow> int \<Rightarrow> throwable + string list"
  newArray :: "string list \<Rightarrow> throwable + jsvalue"
  HOOK_ERROR :: int
  decodeString :: "byte list \<Rightarrow> string"
  doCheckWithoutRequest :: "check_type \<Rightarrow> scriptable \<Rightarrow> throwable option"

text \<open>
  What a call of the hook does, as seen from the intercepted call site: the warnings it
  logged (message, error code and the throwable), the check it handed to the checker if
  any, and the throwable that left the call (\<open>None\<close> when it returned normally).
\<close>

record outcome =
  warned :: "(string \<times> int \<times> throwable) list"
  checked :: "(check_type \<times> scriptable) option"
  raised :: "throwable option"

subsection \<open>Joining the command\<close>

text \<open>
  \<open>StringUtils.join(Iterable, String)\<close>: the empty iteration gives the empty string;
  otherwise the first element is appended to a buffer and every further element is
  appended after the separator. A null element contributes nothing.
\<close>

definition toStr :: "string option \<Rightarrow> string" where
  "toStr obj = (case obj of None \<Rightarrow> [] | Some s \<Rightarrow> s)"

definition StringUtils_join :: "string option list \<Rightarrow> string \<Rightarrow> string" where
  "StringUtils_join iterable separator =
     (case iterable of
        [] \<Rightarrow> []
      | first # rest \<Rightarrow> foldl (\<lambda>buf obj. buf @ separator @ toStr obj) (toStr first) rest)"

text \<open>
  The reading of "joined by single spaces" that the claim is compared with: the words,
  with one separator between each two neighbours.
\<close>

fun joined_by :: "string \<Rightarrow> string list \<Rightarrow> string" where
  "joined_by sep [] = []"
| "joined_by sep [w] = w"
| "joined_by sep (w # v # ws) = w @ sep @ joined_by sep (v # ws)"

subsection \<open>checkCommand(List)\<close>

text \<open>
  The \<open>try\<close> block of \<open>checkCommand(List<String>)\<close>. It returns the value of the
  variable \<open>params\<close> when the block is left, and the throwable that was caught, if any.
  \<open>params\<close> is assigned by \<open>newObject\<close>; a throwable raised later leaves it assigned.
  The two calls of \<open>put\<close> on the new object and the join are taken to return.
\<close>

definition build_params :: "hook_env \<Rightarrow> string option list \<Rightarrow> scriptable option \<times> throwable option" where
  "build_params env command =
     (case enterAndInitContext env of
        Some t \<Rightarrow> (None, Some t)
      | None \<Rightarrow>
     (case newObject env of
        Some t \<Rightarrow> (None, Some t)
      | None \<Rightarrow>
        (let params = Map.empty(''command'' \<mapsto> JSString (StringUtils_join command '' ''))
         in case getStackTraceArray env (REFLECTION_STACK_START_INDEX env) (getPluginMaxStack env) of
              Inl t \<Rightarrow> (Some params, Some t)
            | Inr stackInfo \<Rightarrow>
               (case newArray env stackInfo of
                  Inl t \<Rightarrow> (Some params, Some t)
                | Inr stackArray \<Rightarrow> (Some (params(''stack'' \<mapsto> stackArray)), None)))))"

text \<open>
  The hook itself. Outside the guard nothing happens. The \<open>catch\<close> block logs one
  warning with the message of the throwable and the code of \<open>HOOK_ERROR\<close>; the logging
  is taken to return. The call of \<open>doCheckWithoutRequest\<close> stands after the \<open>try\<close>
  statement, under the test that \<open>params\<close> is not null.
\<close>

definition skipped :: outcome where
  "skipped = \<lparr>warned = [], checked = None, raised = None\<rparr>"

definition checkCommand :: "hook_env \<Rightarrow> string option list option \<Rightarrow> outcome" where
  "checkCommand env command =
     (case command of
        None \<Rightarrow> skipped
      | Some cs \<Rightarrow>
          if cs = [] then skipped
          else
            (let (params, caught) = build_params env cs;
                 logs = (case caught of
                           None \<Rightarrow> []
                         | Some t \<Rightarrow> [(getMessage t, HOOK_ERROR env, t)])
             in case params of
                  None \<Rightarrow> \<lparr>warned = logs, checked = None, raised = None\<rparr>
                | Some p \<Rightarrow>
                    \<lparr>warned = logs, checked = Some (COMMAND, p),
                     raised = doCheckWithoutRequest env COMMAND p\<rparr>))"

subsection \<open>checkCommand(byte[], byte[])\<close>

text \<open>\<open>Arrays.copyOfRange(args, from, to)\<close> for \<open>from \<le> to \<le> args.length\<close>.\<close>

definition copyOfRange :: "byte list \<Rightarrow> nat \<Rightarrow> nat \<Rightarrow> byte list" where
  "copyOfRange args from to = take (to - from) (drop from args)"

text \<open>
  The \<open>for\<close> loop over \<open>args\<close>, with its loop variable \<open>i\<close>, the variable \<open>position\<close>
  and the list \<open>commands\<close> as arguments.
\<close>

function args_loop :: "(byte list \<Rightarrow> string) \<Rightarrow> byte list \<Rightarrow> nat \<Rightarrow> nat \<Rightarrow> string list \<Rightarrow> string list" where
  "args_loop dec args i position commands =
     (if i < length args then
        (if args ! i = 0
         then args_loop dec args (i + 1) (i + 1) (commands @ [dec (copyOfRange args position i)])
         else args_loop dec args (i + 1) position commands)
      else commands)"
  by pat_completeness auto
termination
  by (relation "measure (\<lambda>(dec, args, i, position, commands). length args - i)") auto

declare args_loop.simps [simp del]

text \<open>
  The list \<open>commands\<close> that the byte-array form builds before it calls the list form:
  \<open>new String(command, 0, command.length - 1)\<close> decodes all bytes but the last.
\<close>

definition command_part :: "(byte list \<Rightarrow> string) \<Rightarrow> byte list option \<Rightarrow> string list" where
  "command_part dec command =
     (case command of
        None \<Rightarrow> []
      | Some c \<Rightarrow> if length c > 0 then [dec (take (length c - 1) c)] else [])"

definition args_part :: "(byte list \<Rightarrow> string) \<Rightarrow> byte list option \<Rightarrow> string list \<Rightarrow> string list" where
  "args_part dec args commands =
     (case args of
        None \<Rightarrow> commands
      | Some a \<Rightarrow> if length a > 0 then args_loop dec a 0 0 commands else commands)"

definition commands_of_bytes :: "(byte list \<Rightarrow> string) \<Rightarrow> byte list option \<Rightarrow> byte list option \<Rightarrow> string list" where
  "commands_of_bytes dec command args = args_part dec args (command_part dec command)"

definition checkCommand_bytes :: "hook_env \<Rightarrow> byte list option \<Rightarrow> byte list option \<Rightarrow> outcome" where
  "checkCommand_bytes env command args =
     checkCommand env (Some (map Some (commands_of_bytes (decodeString env) command args)))"

text \<open>The pieces of a byte sequence that end at a zero byte; what follows the last zero is dropped.\<close>

fun zero_terminated :: "byte list \<Rightarrow> byte list \<Rightarrow> byte list list" where
  "zero_terminated cur [] = []"
| "zero_terminated cur (b # bs) =
     (if b = 0 then rev cur # zero_terminated [] bs else zero_terminated (b # cur) bs)"


section \<open>The dependency model of the cloud backend (models/dependency.go)\<close>

subsection \<open>Data\<close>

record dependency =
  UpsertId :: string
  Path :: "string list"
  CreateTime :: int
  RaspId :: string
  HostName :: string
  RegisterIp :: string
  AppId :: string
  Vendor :: string
  Product :: string
  Version :: string
  Tag :: string
  SearchString :: string
  Source :: string

text \<open>The fields of \<open>Rasp\<close> that \<open>AddDependency\<close> reads.\<close>

record rasp =
  rasp_Id :: string
  rasp_AppId :: string
  rasp_HostName :: string
  rasp_RegisterIp :: string

datatype go_error = Error string

text \<open>
  The ways in which a call ends without returning: the panics of the runtime, and the
  fatal error of an allocation for which no memory is left.
\<close>

datatype panic =
  NilPointerDereference | MakesliceCapOutOfRange | SliceBoundsOutOfRange | IndexOutOfRange | OutOfMemory

text \<open>
  The services \<open>AddDependency\<close> calls: the clock (the value of \<open>time.Now().UnixNano()\<close>
  at the n-th iteration of the loop), the log writer, the index name and the bulk insert.
\<close>

record cloud_env =
  UnixNano :: "nat \<Rightarrow> int"
  AddLogsWithKafka :: "string \<Rightarrow> string \<Rightarrow> dependency list \<Rightarrow> go_error option"
  GetIndex :: "string \<Rightarrow> string \<Rightarrow> string"
  BulkInsert :: "string \<Rightarrow> string \<Rightarrow> dependency list \<Rightarrow> go_error option"

definition AliasDependencyIndexName :: string where
  "AliasDependencyIndexName = ''real-openrasp-dependency-data''"

definition dependencyType :: string where
  "dependencyType = ''dependency''"

subsection \<open>AddDependency\<close>

text \<open>
  \<open>fmt.Sprint\<close> of a slice of strings: an opening bracket, the elements with a space
  before each one but the first, a closing bracket. \<open>fmt.Sprint\<close> of a string is the
  string.
\<close>

definition Sprint_slice :: "string list \<Rightarrow> string" where
  "Sprint_slice xs =
     foldl (\<lambda>buf (i, e). buf @ (if i > 0 then '' '' else []) @ e) ''['' (enumerate 0 xs) @ '']''"

text \<open>
  The body of the \<open>range\<close> loop for one dependency: it takes the value of \<open>idContent\<close>
  before the iteration and returns the value after it together with the updated
  dependency. \<open>idContent\<close> is declared before the loop and only ever appended to. The
  three fields are read before the assignments to \<open>RaspId\<close> and \<open>Tag\<close>.
\<close>

definition AddDependency_body :: "rasp \<Rightarrow> int \<Rightarrow> string \<Rightarrow> dependency \<Rightarrow> string \<times> dependency" where
  "AddDependency_body r now idContent d =
     (let idContent = idContent @ Sprint_slice (Path d);
          idContent = idContent @ Tag d;
          idContent = idContent @ RaspId d
      in (idContent,
          d\<lparr>CreateTime := now sdiv 1000000,
            AppId := rasp_AppId r,
            RaspId := rasp_Id r,
            HostName := rasp_HostName r,
            RegisterIp := rasp_RegisterIp r,
            Tag := Vendor d @ '':'' @ Product d @ '':'' @ Version d,
            SearchString := Product d @ Version d,
            UpsertId := idContent\<rparr>))"

text \<open>
  The loop over the batch. The dependencies are taken to be distinct objects, as the
  JSON decoder produces them, so each is updated once.
\<close>

fun AddDependency_loop :: "rasp \<Rightarrow> (nat \<Rightarrow> int) \<Rightarrow> nat \<Rightarrow> string \<Rightarrow> dependency list \<Rightarrow> dependency list" where
  "AddDependency_loop r clock n idContent [] = []"
| "AddDependency_loop r clock n idContent (d # ds) =
     (case AddDependency_body r (clock n) idContent d of
        (idContent', d') \<Rightarrow> d' # AddDependency_loop r clock (n + 1) idContent' ds)"

text \<open>The error returned and the documents built; the documents are the updated dependencies.\<close>

definition AddDependency :: "cloud_env \<Rightarrow> rasp \<Rightarrow> dependency list \<Rightarrow> go_error option \<times> dependency list" where
  "AddDependency env r dependencies =
     (let docs = AddDependency_loop r (UnixNano env) 0 [] dependencies
      in case AddLogsWithKafka env ''dependency-data'' (rasp_AppId r) docs of
           Some err \<Rightarrow> (Some err, docs)
         | None \<Rightarrow>
             (BulkInsert env (GetIndex env AliasDependencyIndexName (rasp_AppId r)) dependencyType docs,
              docs))"

text \<open>The three fields of one dependency that the identifier is built from.\<close>

definition own_id_content :: "dependency \<Rightarrow> string" where
  "own_id_content d = Sprint_slice (Path d) @ Tag d @ RaspId d"

subsection \<open>AggrDependencyByQuery\<close>

text \<open>
  A bucket key is an \<open>interface{}\<close>: nil, a string, or something else (a number). A
  bucket is a pointer and may be nil; the slice of buckets may be nil; the aggregations
  of a result may be nil, and may lack the aggregation asked for.
\<close>

datatype es_key = KeyNil | KeyString string | KeyNumber int

record bucket =
  Key :: es_key
  DocCount :: int

record search_result =
  Aggregations :: "(string \<rightharpoonup> bucket option list option) option"

record search_param =
  Page :: int
  Perpage :: int

datatype go_value = VString string | VInt64 int

type_synonym result_map = "string \<rightharpoonup> go_value"

text \<open>
  What the function gets from outside: the error of \<open>getDependencyQuery\<close>, the version
  string of the search service, what the search request returns, and the number of
  bytes that the runtime can still allocate.
\<close>

record es_env =
  query_err :: "go_error option"
  es_Version :: string
  search_Do :: "go_error + search_result option"
  free_memory :: int

text \<open>
  \<open>make([]map[string]interface{}, 0, cap)\<close>. An element of the slice is a map, which is
  a pointer of 8 bytes. The runtime panics when the capacity is negative or when the
  size of the slice is beyond its allocation limit, which is \<open>2 ^ 48\<close> bytes on a
  64-bit platform with 48 address bits; a size within the limit for which no memory is
  left ends the program.
\<close>

definition maxAlloc :: int where
  "maxAlloc = 2 ^ 48"

definition makeslice :: "int \<Rightarrow> int \<Rightarrow> panic option" where
  "makeslice free cap =
     (if cap < 0 \<or> 8 * cap > maxAlloc then Some MakesliceCapOutOfRange
      else if 8 * cap > free then Some OutOfMemory
      else None)"

text \<open>The Go type \<open>int\<close> has 64 bits; arithmetic wraps around in two's complement.\<close>

definition wrap64 :: "int \<Rightarrow> int" where
  "wrap64 x = signed_take_bit 63 x"

text \<open>\<open>strings.Split(s, sep)\<close> for a separator of one character.\<close>

fun Split_from :: "string \<Rightarrow> char \<Rightarrow> string \<Rightarrow> string list" where
  "Split_from cur sep [] = [rev cur]"
| "Split_from cur sep (c # cs) =
     (if c = sep then rev cur # Split_from [] sep cs else Split_from (c # cur) sep cs)"

definition Split :: "string \<Rightarrow> char \<Rightarrow> string list" where
  "Split s sep = Split_from [] sep s"

text \<open>The map built for one bucket, when one is built.\<close>

definition bucket_value :: "bucket option \<Rightarrow> result_map option" where
  "bucket_value item =
     (case item of
        None \<Rightarrow> None
      | Some b \<Rightarrow>
         (case Key b of
            KeyString tag \<Rightarrow>
              (let dependencyData = Split tag CHR '':''
               in if length dependencyData = 3
                  then Some (Map.empty(''vendor'' \<mapsto> VString (dependencyData ! 0),
                                       ''product'' \<mapsto> VString (dependencyData ! 1),
                                       ''version'' \<mapsto> VString (dependencyData ! 2),
                                       ''tag'' \<mapsto> VString tag,
                                       ''rasp_count'' \<mapsto> VInt64 (DocCount b)))
                  else None)
          | _ \<Rightarrow> None))"

text \<open>
  The loop over the page, with the loop variable \<open>i\<close> and the slice \<open>result\<close> as
  arguments. Indexing the buckets with a negative index panics.
\<close>


function aggr_loop :: "bucket option list \<Rightarrow> int \<Rightarrow> int \<Rightarrow> nat \<Rightarrow> result_map list \<Rightarrow> panic + result_map list" where
  "aggr_loop buckets page perpage i result =
     (if int i < perpage then
        (let index = wrap64 (int i + wrap64 (wrap64 (page - 1) * perpage))
         in if index \<ge> int (length buckets) then Inr result
            else if index < 0 then Inl IndexOutOfRange
            else aggr_loop buckets page perpage (i + 1)
                   (case bucket_value (buckets ! nat index) of
                      None \<Rightarrow> result
                    | Some v \<Rightarrow> result @ [v]))
      else Inr result)"
  by pat_completeness auto
termination
  by (relation "measure (\<lambda>(buckets, page, perpage, i, result). nat perpage - i)") auto

declare aggr_loop.simps [simp del]

text \<open>
  The function. Its parameter is a pointer and may be nil; reading the field \<open>Data\<close> of
  a nil parameter in \<open>getDependencyQuery\<close> panics. It returns the error of the query or
  of the search; slicing the first character off an empty version string panics. The
  slice \<open>result\<close> is made with the capacity \<open>Perpage\<close> at line 141, and made again with
  the same capacity at line 145, when the first one is no longer referenced; the model
  has one allocation for both. The small maps of the entries are taken to be allocated.
  Without a result, without aggregations, without the aggregation asked for or without
  buckets, the total is zero and the page is empty.
\<close>

definition AggrDependencyByQuery :: "es_env \<Rightarrow> search_param option \<Rightarrow> panic + (int \<times> result_map list option \<times> go_error option)" where
  "AggrDependencyByQuery env param_ptr =
     (case param_ptr of
        None \<Rightarrow> Inl NilPointerDereference
      | Some param \<Rightarrow>
     (case query_err env of
        Some err \<Rightarrow> Inr (0, None, Some err)
      | None \<Rightarrow>
          if es_Version env = [] then Inl SliceBoundsOutOfRange
          else
           (case search_Do env of
              Inl err \<Rightarrow> Inr (0, None, Some err)
            | Inr queryResult \<Rightarrow>
               (case makeslice (free_memory env) (Perpage param) of
                  Some p \<Rightarrow> Inl p
                | None \<Rightarrow>
                 (case queryResult of
                    None \<Rightarrow> Inr (0, Some [], None)
                  | Some res \<Rightarrow>
                     (case Aggregations res of
                        None \<Rightarrow> Inr (0, Some [], None)
                      | Some aggs \<Rightarrow>
                         (case aggs ''dependency_aggr'' of
                            None \<Rightarrow> Inr (0, Some [], None)
                          | Some None \<Rightarrow> Inr (0, Some [], None)
                          | Some (Some buckets) \<Rightarrow>
                             (case aggr_loop buckets (Page param) (Perpage param) 0 [] of
                                Inl p \<Rightarrow> Inl p
                              | Inr result \<Rightarrow> Inr (int (length buckets), Some result, None)))))))))"

text \<open>
  The request sent to the search service is a terms aggregation on the field \<open>tag\<close> with
  size 10000, ordered by ascending key, over the documents matching the query: one bucket
  for each distinct tag of a matching document, with the number of such documents, the
  first 10000 of them in key order.
\<close>

definition terms_buckets :: "nat \<Rightarrow> string list \<Rightarrow> bucket list" where
  "terms_buckets sz tags =
     take sz (map (\<lambda>k. \<lparr>Key = KeyString k, DocCount = int (count_list tags k)\<rparr>) (sort (remdups tags)))"

definition terms_search :: "(dependency \<Rightarrow> bool) \<Rightarrow> dependency list \<Rightarrow> go_error + search_result option" where
  "terms_search matching docs =
     Inr (Some \<lparr>Aggregations =
       Some (Map.empty(''dependency_aggr'' \<mapsto>
         Some (map Some (terms_buckets 10000 (map Tag (filter matching docs))))))\<rparr>)"


text \<open>The page of a list that a page number, counted from one, and a page length select.\<close>

definition page_slice :: "'a list \<Rightarrow> int \<Rightarrow> int \<Rightarrow> 'a list" where
  "page_slice xs page perpage = take (nat perpage) (drop (nat ((page - 1) * perpage)) xs)"

text \<open>The map with the five keys of a page entry, for a vendor, a product, a version and a count.\<close>

definition entry :: "string \<Rightarrow> string \<Rightarrow> string \<Rightarrow> int \<Rightarrow> result_map" where
  "entry vendor product version n =
     Map.empty(''vendor'' \<mapsto> VString vendor, ''product'' \<mapsto> VString product,
               ''version'' \<mapsto> VString version,
               ''tag'' \<mapsto> VString (vendor @ '':'' @ product @ '':'' @ version),
               ''rasp_count'' \<mapsto> VInt64 n)"

section \<open>The decision engine\<close>

subsection \<open>Stack Capturer\<close>

text \<open>
  Modelled from the spec: \<open>StackTrace.getStackTraceArray\<close>, the Stack Capturer that the
  hook calls, has no source among the files at hand. The call stack is the list of the
  formatted frames above the capture point, nearest first, or \<open>None\<close> in an environment
  that cannot introspect its own stack. \<open>capture\<close> gives at most \<open>maxDepth\<close> frames,
  starting \<open>startOffset\<close> frames above the capture point, and the empty sequence when
  the stack cannot be inspected.
\<close>

definition capture :: "string list option \<Rightarrow> nat \<Rightarrow> nat \<Rightarrow> string list" where
  "capture stack startOffset maxDepth =
     (case stack of
        None \<Rightarrow> []
      | Some frames \<Rightarrow> take maxDepth (drop startOffset frames))"

subsection \<open>Check parameters and cache keys\<close>

text \<open>
  Modelled from the spec: the check parameter of the data model, a type tag and an
  ordered mapping from field names to values.
\<close>

record check_parameter =
  ptype :: check_type
  pfields :: "(string \<times> jsvalue) list"

text \<open>
  Modelled from the spec: the body of \<open>build_lru_key\<close>, declared in mongo_object.h, is
  missing. The key is the operation type as a namespace prefix followed by a stable
  serialization of the salient fields. The serialization is left open by the
  specification and is a parameter here; the stack trace is not a salient field.
\<close>

definition type_prefix :: "check_type \<Rightarrow> string" where
  "type_prefix t =
     (case t of
        COMMAND \<Rightarrow> ''COMMAND''
      | FILE \<Rightarrow> ''FILE''
      | SQL \<Rightarrow> ''SQL''
      | DESERIALIZATION \<Rightarrow> ''DESERIALIZATION'')"

definition salient :: "(string \<times> jsvalue) list \<Rightarrow> (string \<times> jsvalue) list" where
  "salient fs = filter (\<lambda>(k, v). k \<noteq> ''stack'') fs"

definition deriveKey :: "((string \<times> jsvalue) list \<Rightarrow> string) \<Rightarrow> check_parameter \<Rightarrow> string" where
  "deriveKey serialize p = type_prefix (ptype p) @ serialize (salient (pfields p))"

subsection \<open>Decisions\<close>

text \<open>Modelled from the spec: the actions of a decision.\<close>

datatype action = ALLOW | LOG | BLOCK

text \<open>Modelled from the spec: the decision of the data model.\<close>

record decision =
  action :: action
  messages :: "string list"
  policyId :: "string option"




subsection \<open>Decision Cache\<close>

text \<open>
  Modelled from the spec: the Decision Cache, whose implementation is not among the
  files at hand. The entries are kept in the order of their last access, the most
  recently used first, so the position of an entry stands for its logical clock value.
  Nothing in the cache refers to time.
\<close>

record decision_cache =
  capacity :: nat
  entries :: "(string \<times> decision) list"

definition empty_cache :: "nat \<Rightarrow> decision_cache" where
  "empty_cache c = \<lparr>capacity = c, entries = []\<rparr>"

definition cache_keys :: "decision_cache \<Rightarrow> string list" where
  "cache_keys c = map fst (entries c)"

text \<open>Modelled from the spec: \<open>get\<close>; a hit moves the entry to the front.\<close>

definition cache_get :: "string \<Rightarrow> decision_cache \<Rightarrow> decision option \<times> decision_cache" where
  "cache_get k c =
     (case map_of (entries c) k of
        None \<Rightarrow> (None, c)
      | Some d \<Rightarrow> (Some d, c\<lparr>entries := (k, d) # filter (\<lambda>e. fst e \<noteq> k) (entries c)\<rparr>))"

text \<open>
  Modelled from the spec: \<open>put\<close>. A key that is present is replaced and becomes the most
  recent one; on a full cache the least recently used entry, the last one, is evicted
  before the new entry is inserted.
\<close>

definition cache_put :: "string \<Rightarrow> decision \<Rightarrow> decision_cache \<Rightarrow> decision_cache" where
  "cache_put k d c =
     (if k \<in> set (cache_keys c)
      then c\<lparr>entries := (k, d) # filter (\<lambda>e. fst e \<noteq> k) (entries c)\<rparr>
      else if length (entries c) \<ge> capacity c
      then c\<lparr>entries := (k, d) # butlast (entries c)\<rparr>
      else c\<lparr>entries := (k, d) # entries c\<rparr>)"

text \<open>Modelled from the spec: a run of cache operations, for stating the cache bound.\<close>

datatype cache_op = Get string | Put string decision

fun cache_run :: "cache_op list \<Rightarrow> decision_cache \<Rightarrow> decision_cache" where
  "cache_run [] c = c"
| "cache_run (Get k # ops) c = cache_run ops (snd (cache_get k c))"
| "cache_run (Put k d # ops) c = cache_run ops (cache_put k d c)"

text \<open>
  Modelled from the spec: the order of access that the cache bound speaks of. The
  accesses of a run, oldest first, are the keys that were put and the keys that were
  looked up and found. The keys that a run inserts are the keys of its puts.
\<close>

fun accessed :: "cache_op list \<Rightarrow> decision_cache \<Rightarrow> string list" where
  "accessed [] c = []"
| "accessed (Get k # ops) c =
     (if k \<in> set (cache_keys c) then [k] else []) @ accessed ops (snd (cache_get k c))"
| "accessed (Put k d # ops) c = k # accessed ops (cache_put k d c)"

fun put_keys :: "cache_op list \<Rightarrow> string list" where
  "put_keys [] = []"
| "put_keys (Get k # ops) = put_keys ops"
| "put_keys (Put k d # ops) = k # put_keys ops"

text \<open>
  The keys of a sequence of accesses, oldest access first, ordered by their last access:
  the head is the least recently used key.
\<close>

definition by_last_access :: "string list \<Rightarrow> string list" where
  "by_last_access accesses = remdups accesses"

subsection \<open>Interpreter Pool\<close>

text \<open>Modelled from the spec: the five kinds of error of the engine.\<close>

datatype engine_error =
  MalformedInputError | PoolExhaustedError | ScriptLoadError | CheckTimeoutError | ScriptRuntimeError





subsection \<open>Decision Engine\<close>




subsection \<open>The engine behind the hook\<close>


section \<open>Example inputs\<close>

text \<open>A decoder for byte strings: each byte is one character.\<close>

definition latin1 :: "byte list \<Rightarrow> string" where
  "latin1 = map (\<lambda>b. char_of (unat b))"

text \<open>
  An environment in which every call of the hook into its collaborators returns, one in
  which the checker throws, one in which no script context can be entered, and one in
  which the stack cannot be captured.
\<close>

definition quiet_env :: hook_env where
  "quiet_env =
     \<lparr>enterAndInitContext = None, newObject = None,
      REFLECTION_STACK_START_INDEX = 0, getPluginMaxStack = 100,
      getStackTraceArray = (\<lambda>start depth. Inr [''java.lang.ProcessImpl.start'']),
      newArray = (\<lambda>frames. Inr (JSArray frames)),
      HOOK_ERROR = 20002,
      decodeString = latin1,
      doCheckWithoutRequest = (\<lambda>t p. None)\<rparr>"

definition throwing_env :: hook_env where
  "throwing_env = quiet_env\<lparr>doCheckWithoutRequest := (\<lambda>t p. Some (Throwable ''blocked''))\<rparr>"



text \<open>Two dependencies as an agent reports them, the agent, and services that succeed.\<close>

definition dep_a :: dependency where
  "dep_a = \<lparr>UpsertId = [], Path = [''/lib/a.jar''], CreateTime = 0, RaspId = ''agent-1'',
      HostName = [], RegisterIp = [], AppId = [], Vendor = ''org.a'', Product = ''a'',
      Version = ''1.0'', Tag = ''org.a:a:1.0'', SearchString = [], Source = ''pom''\<rparr>"

definition dep_b :: dependency where
  "dep_b = \<lparr>UpsertId = [], Path = [''/lib/b.jar'', ''/opt/b.jar''], CreateTime = 0, RaspId = ''agent-1'',
      HostName = [], RegisterIp = [], AppId = [], Vendor = ''org.b'', Product = ''b'',
      Version = ''2.0'', Tag = ''org.b:b:2.0'', SearchString = [], Source = ''pom''\<rparr>"

definition rasp_1 :: rasp where
  "rasp_1 = \<lparr>rasp_Id = ''agent-1'', rasp_AppId = ''app-1'', rasp_HostName = ''host'',
      rasp_RegisterIp = ''10.0.0.1''\<rparr>"

definition cloud_ok :: cloud_env where
  "cloud_ok = \<lparr>UnixNano = (\<lambda>n. 1700000000000000000 + int n),
      AddLogsWithKafka = (\<lambda>name app docs. None),
      GetIndex = (\<lambda>name app. name @ ''-'' @ app),
      BulkInsert = (\<lambda>index type docs. None)\<rparr>"

text \<open>
  Stored documents with a given tag: four documents with three distinct tags, one of
  which has four components, and 10001 documents with 10001 distinct tags.
\<close>

definition tagged :: "string \<Rightarrow> dependency" where
  "tagged t = dep_a\<lparr>Tag := t\<rparr>"

definition three_docs :: "dependency list" where
  "three_docs = [tagged ''org.b:b:2.0'', tagged ''org.a:a:1.0'', tagged ''org:c:c:3.0'', tagged ''org.a:a:1.0'']"

definition three_env :: es_env where
  "three_env = \<lparr>query_err = None, es_Version = ''6.4.0'', search_Do = terms_search (\<lambda>d. True) three_docs,
      free_memory = 2 ^ 30\<rparr>"

definition many_docs :: "dependency list" where
  "many_docs = map (\<lambda>n. tagged (''org.a:a:'' @ replicate n CHR ''1'')) [0..<10001]"

definition many_env :: es_env where
  "many_env = \<lparr>query_err = None, es_Version = ''6.4.0'', search_Do = terms_search (\<lambda>d. True) many_docs,
      free_memory = 2 ^ 30\<rparr>"

definition first_page :: search_param where
  "first_page = \<lparr>Page = 1, Perpage = 10\<rparr>"

text \<open>A decision, and a run of a cache of capacity two that looks a key up between its puts.\<close>

definition block_decision :: decision where
  "block_decision = \<lparr>action = BLOCK, messages = [''shell command execution detected''], policyId = None\<rparr>"

definition lru_ops :: "cache_op list" where
  "lru_ops = [Put ''a'' block_decision, Put ''b'' block_decision, Get ''a'', Put ''c'' block_decision]"

text \<open>A serialization of fields: the values, one after the other.\<close>

definition field_values :: "(string \<times> jsvalue) list \<Rightarrow> string" where
  "field_values fs = concat (map (\<lambda>(k, v). case v of JSString s \<Rightarrow> s | JSArray xs \<Rightarrow> concat xs) fs)"

text \<open>Check parameters: a command and a file with the same text, and a shell command with its stack.\<close>

definition command_rm :: check_parameter where
  "command_rm = \<lparr>ptype = COMMAND, pfields = [(''command'', JSString ''rm -rf /'')]\<rparr>"

definition file_rm :: check_parameter where
  "file_rm = \<lparr>ptype = FILE, pfields = [(''path'', JSString ''rm -rf /'')]\<rparr>"





section \<open>Properties of the command hook\<close>

subsection \<open>The command field\<close>

lemma toStr_Some: "toStr (Some s) = s"
  by (simp add: toStr_def)

lemma join_foldl: "foldl (\<lambda>buf obj. buf @ sep @ toStr obj) acc (map Some ws) = acc @ concat (map (\<lambda>w. sep @ w) ws)"
  by (induction ws arbitrary: acc) (simp_all add: toStr_Some)

lemma joined_by_Cons: "joined_by sep (w # ws) = w @ concat (map (\<lambda>v. sep @ v) ws)"
  by (induction ws arbitrary: w) simp_all

lemma StringUtils_join_joined_by: "StringUtils_join (map Some ws) sep = joined_by sep ws"
  by (cases ws) (simp_all add: StringUtils_join_def join_foldl joined_by_Cons toStr_Some)

lemma build_params_command:
  "fst (build_params env cs) = Some p \<Longrightarrow> p ''command'' = Some (JSString (StringUtils_join cs '' ''))"
  by (auto simp: build_params_def Let_def split: option.splits sum.splits)

lemma build_params_created:
  "enterAndInitContext env = None \<Longrightarrow> newObject env = None \<Longrightarrow> fst (build_params env cs) \<noteq> None"
  by (auto simp: build_params_def Let_def split: option.splits sum.splits)

lemma checked_checkCommand:
  "cs \<noteq> [] \<Longrightarrow> checked (checkCommand env (Some cs)) = map_option (Pair COMMAND) (fst (build_params env cs))"
  by (auto simp: checkCommand_def Let_def split: option.splits prod.splits)

text \<open>
  Claim C2. For a non-empty command list of strings, the check that the hook hands to the
  checker has type \<open>COMMAND\<close> and its \<open>command\<close> field is the list joined by single
  spaces. The check is handed over whenever the script context and the parameter object
  could be created; whenever a check is handed over, it has this type and this field.
\<close>

theorem checkCommand_command_field:
  assumes "ws \<noteq> []"
  shows "(enterAndInitContext env = None \<and> newObject env = None
            \<longrightarrow> checked (checkCommand env (Some (map Some ws))) \<noteq> None)
       \<and> (\<forall>t p. checked (checkCommand env (Some (map Some ws))) = Some (t, p)
            \<longrightarrow> t = COMMAND \<and> p ''command'' = Some (JSString (joined_by '' '' ws)))"
proof -
  from assms have ne: "map Some ws \<noteq> []" by simp
  show ?thesis
    using build_params_created [of env "map Some ws"] build_params_command [of env "map Some ws"]
    by (auto simp: checked_checkCommand [OF ne] StringUtils_join_joined_by)
qed


text \<open>
  The scenario of the specification: \<open>["/bin/sh", "-c", "id"]\<close> gives the command
  field \<open>"/bin/sh -c id"\<close>.
\<close>

theorem checkCommand_command_field_witness:
  "[''/bin/sh'', ''-c'', ''id''] \<noteq> []
   \<and> (\<exists>p. checked (checkCommand quiet_env (Some [Some ''/bin/sh'', Some ''-c'', Some ''id''])) = Some (COMMAND, p)
        \<and> p ''command'' = Some (JSString ''/bin/sh -c id''))"
proof -
  have ne: "[''/bin/sh'', ''-c'', ''id''] \<noteq> []" by simp
  have c: "checked (checkCommand quiet_env (Some (map Some [''/bin/sh'', ''-c'', ''id'']))) \<noteq> None"
    using checkCommand_command_field [OF ne, of quiet_env] by (simp add: quiet_env_def)
  then obtain t p where tp: "checked (checkCommand quiet_env (Some (map Some [''/bin/sh'', ''-c'', ''id'']))) = Some (t, p)"
    by (cases "checked (checkCommand quiet_env (Some (map Some [''/bin/sh'', ''-c'', ''id''])))") auto
  with checkCommand_command_field [OF ne, of quiet_env]
  have "t = COMMAND \<and> p ''command'' = Some (JSString (joined_by '' '' [''/bin/sh'', ''-c'', ''id'']))"
    by blast
  with tp ne show ?thesis by simp
qed


subsection \<open>Faults at the call site\<close>












subsection \<open>The null and the empty command list\<close>

text \<open>
  Claim C3, as the code has it. For a command list that is null or empty the hook does
  nothing: it logs no warning, hands no check to the checker and returns normally.
\<close>

theorem checkCommand_null_or_empty:
  "command = None \<or> command = Some [] \<Longrightarrow>
     checkCommand env command = \<lparr>warned = [], checked = None, raised = None\<rparr>"
  by (auto simp: checkCommand_def skipped_def)

theorem checkCommand_null_or_empty_witness:
  "checkCommand throwing_env None = \<lparr>warned = [], checked = None, raised = None\<rparr>
   \<and> checkCommand throwing_env (Some []) = \<lparr>warned = [], checked = None, raised = None\<rparr>"
  using checkCommand_null_or_empty [of None throwing_env]
    checkCommand_null_or_empty [of "Some []" throwing_env]
  by simp

text \<open>
  Claim C3 as stated says that a null or empty list produces an error outcome. Neither
  a warning nor a throwable is produced.
\<close>

theorem checkCommand_skips_counterexample:
  "warned (checkCommand quiet_env None) = [] \<and> raised (checkCommand quiet_env None) = None
   \<and> warned (checkCommand quiet_env (Some [])) = [] \<and> raised (checkCommand quiet_env (Some [])) = None"
  by (simp add: checkCommand_def skipped_def)


subsection \<open>The byte-array form\<close>

lemma copyOfRange_snoc:
  "position \<le> i \<Longrightarrow> i < length args \<Longrightarrow>
     copyOfRange args position (Suc i) = copyOfRange args position i @ [args ! i]"
  by (simp add: copyOfRange_def Suc_diff_le take_Suc_conv_app_nth)

lemma copyOfRange_empty: "copyOfRange args i i = []"
  by (simp add: copyOfRange_def)

lemma args_loop_pieces:
  "position \<le> i \<Longrightarrow> i \<le> length args \<Longrightarrow>
     args_loop dec args i position commands =
       commands @ map dec (zero_terminated (rev (copyOfRange args position i)) (drop i args))"
proof (induction dec args i position commands rule: args_loop.induct)
  case (1 dec args i position commands)
  show ?case
  proof (cases "i < length args")
    case False
    with "1.prems" show ?thesis
      by (subst args_loop.simps) (simp add: copyOfRange_def)
  next
    case True
    then have d: "drop i args = args ! i # drop (i + 1) args"
      by (simp add: Cons_nth_drop_Suc)
    show ?thesis
    proof (cases "args ! i = 0")
      case z: True
      from "1.IH"(1) [OF True z] True
      have "args_loop dec args (i + 1) (i + 1) (commands @ [dec (copyOfRange args position i)]) =
              (commands @ [dec (copyOfRange args position i)]) @
                map dec (zero_terminated (rev (copyOfRange args (i + 1) (i + 1))) (drop (i + 1) args))"
        by simp
      with True z d show ?thesis
        by (subst args_loop.simps) (simp add: copyOfRange_empty)
    next
      case nz: False
      from "1.IH"(2) [OF True nz] True "1.prems"
      have "args_loop dec args (i + 1) position commands =
              commands @ map dec (zero_terminated (rev (copyOfRange args position (i + 1))) (drop (i + 1) args))"
        by simp
      with True nz d "1.prems" show ?thesis
        by (subst args_loop.simps) (simp add: copyOfRange_snoc)
    qed
  qed
qed

lemma args_part_pieces:
  "args_part dec (Some a) commands = commands @ map dec (zero_terminated [] a)"
  by (cases a) (simp_all add: args_part_def args_loop_pieces copyOfRange_def)

lemma length_zero_terminated: "length (zero_terminated cur bs) = count_list bs 0"
  by (induction bs arbitrary: cur) simp_all

lemma zero_terminated_free:
  "0 \<notin> set cur \<Longrightarrow> \<forall>p \<in> set (zero_terminated cur bs). 0 \<notin> set p"
proof (induction bs arbitrary: cur)
  case Nil
  then show ?case by simp
next
  case (Cons b bs)
  show ?case
  proof (cases "b = 0")
    case True
    with Cons.IH [of "[]"] Cons.prems show ?thesis by simp
  next
    case False
    with Cons.prems have "0 \<notin> set (b # cur)" by auto
    from Cons.IH [OF this] False show ?thesis by simp
  qed
qed


lemma zero_terminated_rest:
  "0 \<notin> set cur \<Longrightarrow>
   \<exists>rest. 0 \<notin> set rest \<and> rev cur @ bs = concat (map (\<lambda>p. p @ [0]) (zero_terminated cur bs)) @ rest"
proof (induction bs arbitrary: cur)
  case Nil
  then show ?case by simp
next
  case (Cons b bs)
  show ?case
  proof (cases "b = 0")
    case True
    from Cons.IH [of "[]"] obtain rest where
      "0 \<notin> set rest" "bs = concat (map (\<lambda>p. p @ [0]) (zero_terminated [] bs)) @ rest"
      by auto
    with True show ?thesis by auto
  next
    case False
    with Cons.prems have "0 \<notin> set (b # cur)" by auto
    from Cons.IH [OF this] False show ?thesis by simp
  qed
qed

text \<open>
  Claim C10. For a command array that is not empty, the byte-array form contributes the
  command without its last byte as the first string. The argument array is cut at its
  zero bytes: it is the concatenation of the pieces, each followed by a zero byte, and
  of a rest without a zero byte; the pieces are the further strings, as many as the
  array has zero bytes, and the rest is dropped. A null argument array contributes
  nothing.
\<close>

theorem checkCommand_bytes_commands:
  assumes "c \<noteq> []"
  shows "commands_of_bytes dec (Some c) None = [dec (butlast c)]
       \<and> (\<exists>pieces rest.
            commands_of_bytes dec (Some c) (Some a) = dec (butlast c) # map dec pieces
          \<and> a = concat (map (\<lambda>p. p @ [0]) pieces) @ rest
          \<and> (\<forall>p \<in> set pieces. 0 \<notin> set p)
          \<and> 0 \<notin> set rest
          \<and> length pieces = count_list a 0)"
proof -
  from assms have cp: "command_part dec (Some c) = [dec (butlast c)]"
    by (simp add: command_part_def butlast_conv_take)
  obtain rest where r: "0 \<notin> set rest" "a = concat (map (\<lambda>p. p @ [0]) (zero_terminated [] a)) @ rest"
    using zero_terminated_rest [of "[]" a] by auto
  have f: "\<forall>p \<in> set (zero_terminated [] a). 0 \<notin> set p"
    using zero_terminated_free [of "[]" a] by simp
  have "commands_of_bytes dec (Some c) (Some a) = dec (butlast c) # map dec (zero_terminated [] a)"
    by (simp add: commands_of_bytes_def cp args_part_pieces)
  with r f length_zero_terminated [of "[]" a]
  have "\<exists>pieces rest.
            commands_of_bytes dec (Some c) (Some a) = dec (butlast c) # map dec pieces
          \<and> a = concat (map (\<lambda>p. p @ [0]) pieces) @ rest
          \<and> (\<forall>p \<in> set pieces. 0 \<notin> set p)
          \<and> 0 \<notin> set rest
          \<and> length pieces = count_list a 0"
    by blast
  moreover have "commands_of_bytes dec (Some c) None = [dec (butlast c)]"
    by (simp add: commands_of_bytes_def cp args_part_def)
  ultimately show ?thesis by blast
qed


text \<open>The command \<open>ls\<close> with the arguments \<open>-l\<close> and \<open>/\<close>, and a trailing byte.\<close>

theorem checkCommand_bytes_commands_witness:
  "[0x6C, 0x73, 0] \<noteq> ([] :: byte list)
   \<and> commands_of_bytes latin1 (Some [0x6C, 0x73, 0]) None = [''ls'']
   \<and> (\<exists>pieces rest.
        commands_of_bytes latin1 (Some [0x6C, 0x73, 0]) (Some [0x2D, 0x6C, 0, 0x2F, 0, 0x78])
          = ''ls'' # map latin1 pieces
      \<and> [0x2D, 0x6C, 0, 0x2F, 0, 0x78] = concat (map (\<lambda>p. p @ [0]) pieces) @ rest
      \<and> (\<forall>p \<in> set pieces. 0 \<notin> set p)
      \<and> 0 \<notin> set rest
      \<and> length pieces = 2)"
proof -
  have ne: "[0x6C, 0x73, 0] \<noteq> ([] :: byte list)" by simp
  have d: "latin1 (butlast [0x6C, 0x73, 0]) = ''ls''"
    unfolding latin1_def by code_simp
  have n: "count_list [0x2D, 0x6C, 0, 0x2F, 0, 0x78 :: byte] 0 = 2" by simp
  from checkCommand_bytes_commands [OF ne, of latin1 "[0x2D, 0x6C, 0, 0x2F, 0, 0x78]"]
  show ?thesis unfolding d n using ne by blast
qed


section \<open>Properties of the dependency model\<close>

subsection \<open>The identifier of a dependency\<close>

text \<open>
  Claim C4 says that the identifier \<open>UpsertId\<close> of a dependency depends on its own path,
  tag and agent identifier only. The code appends these three to a string that it never
  resets, so the identifier of a dependency holds the contents of all dependencies
  before it in the batch: alone in a batch, the second example dependency gets its own
  content as identifier; after the first one, it gets the content of both.
\<close>

theorem AddDependency_UpsertId_batch:
  "map UpsertId (snd (AddDependency cloud_ok rasp_1 [dep_b])) = [''[/lib/b.jar /opt/b.jar]org.b:b:2.0agent-1'']
   \<and> map UpsertId (snd (AddDependency cloud_ok rasp_1 [dep_a, dep_b]))
       = [''[/lib/a.jar]org.a:a:1.0agent-1'',
          ''[/lib/a.jar]org.a:a:1.0agent-1[/lib/b.jar /opt/b.jar]org.b:b:2.0agent-1'']
   \<and> own_id_content dep_b = ''[/lib/b.jar /opt/b.jar]org.b:b:2.0agent-1''"
  by (simp add: AddDependency_def AddDependency_body_def Sprint_slice_def own_id_content_def
      cloud_ok_def rasp_1_def dep_a_def dep_b_def Let_def)

text \<open>In general, the identifier of the k-th dependency is the content of the first k + 1.\<close>

lemma UpsertId_body: "UpsertId (snd (AddDependency_body r now acc d)) = acc @ own_id_content d"
  by (simp add: AddDependency_body_def own_id_content_def Let_def)

lemma fst_body: "fst (AddDependency_body r now acc d) = acc @ own_id_content d"
  by (simp add: AddDependency_body_def own_id_content_def Let_def)

lemma AddDependency_loop_UpsertId:
  "map UpsertId (AddDependency_loop r clock n acc ds) =
     map (\<lambda>k. acc @ concat (map own_id_content (take (Suc k) ds))) [0..<length ds]"
proof (induction ds arbitrary: n acc)
  case Nil
  then show ?case by simp
next
  case (Cons d ds)
  obtain acc' d' where b: "AddDependency_body r (clock n) acc d = (acc', d')"
    by (cases "AddDependency_body r (clock n) acc d")
  with fst_body [of r "clock n" acc d] UpsertId_body [of r "clock n" acc d]
  have e: "acc' = acc @ own_id_content d" "UpsertId d' = acc @ own_id_content d"
    by simp_all
  have "[0..<length (d # ds)] = 0 # map Suc [0..<length ds]"
    by (simp add: upt_conv_Cons map_Suc_upt del: upt_Suc)
  with b e Cons.IH [of "n + 1" acc'] show ?case
    by (simp add: comp_def del: upt_Suc)
qed


subsection \<open>The aggregation by tag\<close>

lemma wrap64_id: "- (2 ^ 63) \<le> x \<Longrightarrow> x < 2 ^ 63 \<Longrightarrow> wrap64 x = x"
  by (simp add: wrap64_def signed_take_bit_int_eq_self)

lemma page_index:
  assumes "1 \<le> page" "int i < perpage" "page * perpage < 2 ^ 63"
  shows "wrap64 (int i + wrap64 (wrap64 (page - 1) * perpage)) = (page - 1) * perpage + int i"
    and "0 \<le> (page - 1) * perpage + int i"
proof -
  from assms have pp: "1 \<le> perpage" by simp
  have nn: "0 \<le> (page - 1) * perpage"
    using assms(1) pp by simp
  have split: "page * perpage = (page - 1) * perpage + perpage"
    by (simp add: algebra_simps)
  have "page * 1 \<le> page * perpage"
    using assms(1) pp by (intro mult_left_mono) simp_all
  with assms(3) have p: "page < 2 ^ 63" by simp
  with assms(1) have w1: "wrap64 (page - 1) = page - 1"
    by (intro wrap64_id) simp_all
  from nn split assms(3) pp have w2: "wrap64 ((page - 1) * perpage) = (page - 1) * perpage"
    by (intro wrap64_id) simp_all
  from nn split assms(2,3) have w3: "wrap64 (int i + (page - 1) * perpage) = int i + (page - 1) * perpage"
    by (intro wrap64_id) simp_all
  show "wrap64 (int i + wrap64 (wrap64 (page - 1) * perpage)) = (page - 1) * perpage + int i"
    by (simp add: w1 w2 w3)
  show "0 \<le> (page - 1) * perpage + int i"
    using nn by simp
qed

lemma aggr_loop_page:
  assumes "1 \<le> page" "0 \<le> perpage" "page * perpage < 2 ^ 63"
  shows "aggr_loop buckets page perpage i result =
           Inr (result @ List.map_filter bucket_value
                  (take (nat perpage - i) (drop (nat ((page - 1) * perpage) + i) buckets)))"
  using assms
proof (induction buckets page perpage i result rule: aggr_loop.induct)
  case (1 buckets page perpage i result)
  show ?case
  proof (cases "int i < perpage")
    case False
    then have "nat perpage - i = 0" by simp
    with False show ?thesis
      by (subst aggr_loop.simps) simp
  next
    case True
    let ?index = "(page - 1) * perpage + int i"
    from page_index [OF "1.prems"(1) True "1.prems"(3)]
    have ix: "wrap64 (int i + wrap64 (wrap64 (page - 1) * perpage)) = ?index" and nn: "0 \<le> ?index"
      by simp_all
    have nn': "0 \<le> (page - 1) * perpage" using "1.prems" by simp
    then have nat_ix: "nat ?index = nat ((page - 1) * perpage) + i"
      by (simp add: nat_add_distrib)
    show ?thesis
    proof (cases "?index \<ge> int (length buckets)")
      case ge: True
      then have "length buckets \<le> nat ((page - 1) * perpage) + i"
        using nat_ix by linarith
      with True ge ix show ?thesis
        by (subst aggr_loop.simps) simp
    next
      case lt: False
      then have l: "nat ((page - 1) * perpage) + i < length buckets"
        using nat_ix nn by linarith
      then have d: "drop (nat ((page - 1) * perpage) + i) buckets =
                      buckets ! (nat ((page - 1) * perpage) + i) # drop (nat ((page - 1) * perpage) + (i + 1)) buckets"
        by (simp add: Cons_nth_drop_Suc)
      from True have t: "nat perpage - i = Suc (nat perpage - (i + 1))"
        by linarith
      have ih: "aggr_loop buckets page perpage (i + 1)
                  (case bucket_value (buckets ! nat ?index) of None \<Rightarrow> result | Some v \<Rightarrow> result @ [v]) =
                Inr ((case bucket_value (buckets ! nat ?index) of None \<Rightarrow> result | Some v \<Rightarrow> result @ [v]) @
                     List.map_filter bucket_value
                       (take (nat perpage - (i + 1)) (drop (nat ((page - 1) * perpage) + (i + 1)) buckets)))"
        using "1.IH" [OF True ix [symmetric] _ _ "1.prems"] lt nn by simp
      show ?thesis
        apply (subst aggr_loop.simps)
        using True lt nn ix ih
        apply (simp add: Let_def d t nat_ix split: option.splits del: upt_Suc)
        done
    qed
  qed
qed


lemma length_Split_from: "length (Split_from cur sep s) = count_list s sep + 1"
  by (induction s arbitrary: cur) simp_all

lemma length_Split: "length (Split s sep) = count_list s sep + 1"
  by (simp add: Split_def length_Split_from)

lemma Split_from_nonempty: "Split_from cur sep s \<noteq> []"
  using length_Split_from [of cur sep s] by auto

lemma Split_from_free: "sep \<notin> set a \<Longrightarrow> Split_from cur sep a = [rev cur @ a]"
  by (induction a arbitrary: cur) auto

lemma Split_from_prefix:
  "sep \<notin> set a \<Longrightarrow> Split_from cur sep (a @ sep # rest) = (rev cur @ a) # Split_from [] sep rest"
  by (induction a arbitrary: cur) auto

lemma Split_from_Cons:
  "Split_from cur sep s = p # ps \<Longrightarrow>
     (ps = [] \<and> p = rev cur @ s \<and> sep \<notin> set s)
   \<or> (\<exists>s1 s2. s = s1 @ sep # s2 \<and> sep \<notin> set s1 \<and> p = rev cur @ s1 \<and> ps = Split_from [] sep s2)"
proof (induction s arbitrary: cur)
  case Nil
  then show ?case by auto
next
  case (Cons c cs)
  show ?case
  proof (cases "c = sep")
    case True
    with Cons.prems have "p = rev cur @ []" "ps = Split_from [] sep cs" by simp_all
    with True show ?thesis by fastforce
  next
    case False
    with Cons.prems have "Split_from (c # cur) sep cs = p # ps" by simp
    from Cons.IH [OF this] show ?thesis
    proof
      assume "ps = [] \<and> p = rev (c # cur) @ cs \<and> sep \<notin> set cs"
      with False show ?thesis by simp
    next
      assume "\<exists>s1 s2. cs = s1 @ sep # s2 \<and> sep \<notin> set s1 \<and> p = rev (c # cur) @ s1 \<and> ps = Split_from [] sep s2"
      then obtain s1 s2 where "cs = s1 @ sep # s2" "sep \<notin> set s1" "p = rev (c # cur) @ s1" "ps = Split_from [] sep s2"
        by blast
      with False have "c # cs = (c # s1) @ sep # s2 \<and> sep \<notin> set (c # s1) \<and> p = rev cur @ (c # s1) \<and> ps = Split_from [] sep s2"
        by simp
      then show ?thesis by blast
    qed
  qed
qed

lemma Split_three:
  assumes "Split tag sep = [a, b, c]"
  shows "tag = a @ sep # b @ sep # c \<and> sep \<notin> set a \<and> sep \<notin> set b \<and> sep \<notin> set c"
proof -
  from assms have 1: "Split_from [] sep tag = a # [b, c]" by (simp add: Split_def)
  from Split_from_Cons [OF 1] obtain t1 where
    t1: "tag = a @ sep # t1" "sep \<notin> set a" "Split_from [] sep t1 = b # [c]"
    by auto
  from Split_from_Cons [OF t1(3)] obtain t2 where
    t2: "t1 = b @ sep # t2" "sep \<notin> set b" "Split_from [] sep t2 = c # []"
    by auto
  from Split_from_Cons [OF t2(3)] Split_from_nonempty [of "[]" sep]
  have "c = t2 \<and> sep \<notin> set t2"
    by (metis append_Nil rev.simps(1))
  with t1 t2 show ?thesis by simp
qed

lemma Split_of_three:
  "sep \<notin> set a \<Longrightarrow> sep \<notin> set b \<Longrightarrow> sep \<notin> set c \<Longrightarrow> Split (a @ sep # b @ sep # c) sep = [a, b, c]"
  by (simp add: Split_def Split_from_prefix Split_from_free)

lemma bucket_value_Some:
  assumes "bucket_value item = Some v"
  shows "\<exists>b vendor product version. item = Some b
           \<and> Key b = KeyString (vendor @ '':'' @ product @ '':'' @ version)
           \<and> CHR '':'' \<notin> set vendor \<and> CHR '':'' \<notin> set product \<and> CHR '':'' \<notin> set version
           \<and> v = entry vendor product version (DocCount b)"
proof -
  from assms obtain b tag where b: "item = Some b" "Key b = KeyString tag"
    by (auto simp: bucket_value_def split: option.splits es_key.splits)
  with assms have l: "length (Split tag CHR '':'') = 3"
    by (auto simp: bucket_value_def Let_def split: if_splits)
  then obtain x y z where s: "Split tag CHR '':'' = [x, y, z]"
    by (auto simp: length_Suc_conv numeral_3_eq_3)
  from Split_three [OF s] have t: "tag = x @ '':'' @ y @ '':'' @ z"
    and f: "CHR '':'' \<notin> set x" "CHR '':'' \<notin> set y" "CHR '':'' \<notin> set z"
    by simp_all
  from assms b s have "v = entry x y z (DocCount b)"
    by (simp add: bucket_value_def entry_def t)
  with b t f show ?thesis by blast
qed

lemma bucket_value_defined:
  "bucket_value (Some b) \<noteq> None \<longleftrightarrow> (\<exists>tag. Key b = KeyString tag \<and> count_list tag CHR '':'' = 2)"
  by (auto simp: bucket_value_def Let_def length_Split split: es_key.splits)

lemma bucket_value_exists:
  "(\<exists>y. bucket_value (Some b) = Some y) \<longleftrightarrow> (\<exists>tag. Key b = KeyString tag \<and> count_list tag CHR '':'' = 2)"
  using bucket_value_defined [of b] by auto

lemma set_map_filter_Some:
  "v \<in> set (List.map_filter f (map Some xs)) \<Longrightarrow> \<exists>x \<in> set xs. f (Some x) = Some v"
  by (auto simp: List.map_filter_def)

lemma length_map_filter: "length (List.map_filter f xs) = length (filter (\<lambda>x. f x \<noteq> None) xs)"
  by (simp add: List.map_filter_def)

lemma length_terms_buckets: "length (terms_buckets sz tags) = min sz (card (set tags))"
  by (simp add: terms_buckets_def length_remdups_card_conv min.commute)

lemma AggrDependencyByQuery_terms_search:
  assumes "query_err env = None" "es_Version env \<noteq> []"
    and "search_Do env = terms_search matching docs"
    and "1 \<le> Page param" "0 \<le> Perpage param" "Page param * Perpage param < 2 ^ 63"
    and "8 * Perpage param \<le> maxAlloc" "8 * Perpage param \<le> free_memory env"
  shows "AggrDependencyByQuery env (Some param) =
           Inr (int (min 10000 (card (Tag ` {d \<in> set docs. matching d}))),
                Some (List.map_filter bucket_value
                  (map Some (page_slice (terms_buckets 10000 (map Tag (filter matching docs)))
                     (Page param) (Perpage param)))),
                None)"
proof -
  let ?buckets = "terms_buckets 10000 (map Tag (filter matching docs))"
  have s: "set (map Tag (filter matching docs)) = Tag ` {d \<in> set docs. matching d}"
    by auto
  have l: "length (map Some ?buckets) = min 10000 (card (Tag ` {d \<in> set docs. matching d}))"
    using length_terms_buckets [of 10000 "map Tag (filter matching docs)"] unfolding s by simp
  have p: "take (nat (Perpage param)) (drop (nat ((Page param - 1) * Perpage param)) (map Some ?buckets))
             = map Some (page_slice ?buckets (Page param) (Perpage param))"
    by (simp add: page_slice_def take_map drop_map)
  have a: "aggr_loop (map Some ?buckets) (Page param) (Perpage param) 0 [] =
             Inr (List.map_filter bucket_value (map Some (page_slice ?buckets (Page param) (Perpage param))))"
    using aggr_loop_page [OF assms(4,5,6), of "map Some ?buckets" 0 "[]"] p by simp
  from assms(5,7,8) have np: "makeslice (free_memory env) (Perpage param) = None"
    by (simp add: makeslice_def)
  show ?thesis
    unfolding AggrDependencyByQuery_def
    using assms(1,2) np a l by (simp add: assms(3) terms_search_def)
qed


lemma Tag_body:
  "Tag (snd (AddDependency_body r now acc d)) = Vendor d @ '':'' @ Product d @ '':'' @ Version d
   \<and> Vendor (snd (AddDependency_body r now acc d)) = Vendor d
   \<and> Product (snd (AddDependency_body r now acc d)) = Product d
   \<and> Version (snd (AddDependency_body r now acc d)) = Version d"
  by (simp add: AddDependency_body_def Let_def)

lemma AddDependency_loop_Tag:
  "\<forall>d \<in> set (AddDependency_loop r clock n acc ds). Tag d = Vendor d @ '':'' @ Product d @ '':'' @ Version d"
proof (induction ds arbitrary: n acc)
  case Nil
  then show ?case by simp
next
  case (Cons d ds)
  obtain acc' d' where b: "AddDependency_body r (clock n) acc d = (acc', d')"
    by (cases "AddDependency_body r (clock n) acc d")
  with Tag_body [of r "clock n" acc d] Cons.IH [of "n + 1" acc'] show ?case
    by simp
qed

lemma AddDependency_Tag:
  "\<forall>d \<in> set (snd (AddDependency env r ds)). Tag d = Vendor d @ '':'' @ Product d @ '':'' @ Version d"
  using AddDependency_loop_Tag [of r "UnixNano env" 0 "[]" ds]
  by (simp add: AddDependency_def Let_def split: option.splits)


text \<open>
  Claim C9, as the code has it. For a page request with a page number of at least one
  and a page length that is not negative and for which the slice of the page can be
  allocated, the total is the number of buckets of the terms aggregation: the number of distinct tags of the matching documents, but at most
  10000, the size of the aggregation. The page holds one entry for each bucket of the
  page slice whose tag has exactly two colons, that is three components; the entry
  reports the components as vendor, product and version, with the tag and the count.
  The other buckets of the slice are left out of the page and still counted in the
  total. The tags stored by \<open>AddDependency\<close> are vendor, product and version joined
  by colons.
\<close>

theorem AggrDependencyByQuery_aggregation:
  assumes "query_err env = None" "es_Version env \<noteq> []"
    and "search_Do env = terms_search matching docs"
    and "1 \<le> Page param" "0 \<le> Perpage param" "Page param * Perpage param < 2 ^ 63"
    and "8 * Perpage param \<le> maxAlloc" "8 * Perpage param \<le> free_memory env"
  shows "\<exists>result.
           AggrDependencyByQuery env (Some param) =
             Inr (int (min 10000 (card (Tag ` {d \<in> set docs. matching d}))), Some result, None)
         \<and> result = List.map_filter bucket_value
             (map Some (page_slice (terms_buckets 10000 (map Tag (filter matching docs))) (Page param) (Perpage param)))
         \<and> (\<forall>v \<in> set result. \<exists>b vendor product version.
               b \<in> set (page_slice (terms_buckets 10000 (map Tag (filter matching docs))) (Page param) (Perpage param))
             \<and> Key b = KeyString (vendor @ '':'' @ product @ '':'' @ version)
             \<and> CHR '':'' \<notin> set vendor \<and> CHR '':'' \<notin> set product \<and> CHR '':'' \<notin> set version
             \<and> v = entry vendor product version (DocCount b))
         \<and> length result = length (filter (\<lambda>b. \<exists>tag. Key b = KeyString tag \<and> count_list tag CHR '':'' = 2)
             (page_slice (terms_buckets 10000 (map Tag (filter matching docs))) (Page param) (Perpage param)))
         \<and> (\<forall>d \<in> set (snd (AddDependency cenv r deps)).
               Tag d = Vendor d @ '':'' @ Product d @ '':'' @ Version d)"
proof -
  let ?page = "page_slice (terms_buckets 10000 (map Tag (filter matching docs))) (Page param) (Perpage param)"
  let ?result = "List.map_filter bucket_value (map Some ?page)"
  have 1: "AggrDependencyByQuery env (Some param) =
             Inr (int (min 10000 (card (Tag ` {d \<in> set docs. matching d}))), Some ?result, None)"
    by (rule AggrDependencyByQuery_terms_search [OF assms])
  have 2: "\<forall>v \<in> set ?result. \<exists>b vendor product version.
               b \<in> set ?page
             \<and> Key b = KeyString (vendor @ '':'' @ product @ '':'' @ version)
             \<and> CHR '':'' \<notin> set vendor \<and> CHR '':'' \<notin> set product \<and> CHR '':'' \<notin> set version
             \<and> v = entry vendor product version (DocCount b)"
  proof
    fix v
    assume "v \<in> set ?result"
    then have "\<exists>b \<in> set ?page. bucket_value (Some b) = Some v"
      by (rule set_map_filter_Some)
    then obtain b0 where i: "b0 \<in> set ?page" "bucket_value (Some b0) = Some v"
      by blast
    from bucket_value_Some [OF i(2)] i(1) show "\<exists>b vendor product version.
               b \<in> set ?page
             \<and> Key b = KeyString (vendor @ '':'' @ product @ '':'' @ version)
             \<and> CHR '':'' \<notin> set vendor \<and> CHR '':'' \<notin> set product \<and> CHR '':'' \<notin> set version
             \<and> v = entry vendor product version (DocCount b)"
      by auto
  qed
  have 3: "length ?result = length (filter (\<lambda>b. \<exists>tag. Key b = KeyString tag \<and> count_list tag CHR '':'' = 2) ?page)"
    by (simp add: length_map_filter filter_map comp_def bucket_value_exists)
  have 4: "\<forall>d \<in> set (snd (AddDependency cenv r deps)).
               Tag d = Vendor d @ '':'' @ Product d @ '':'' @ Version d"
    by (rule AddDependency_Tag)
  from 1 2 3 4 show ?thesis by blast
qed

lemma three_buckets:
  "terms_buckets 10000 (map Tag (filter (\<lambda>d. True) three_docs)) =
     [\<lparr>Key = KeyString ''org.a:a:1.0'', DocCount = 2\<rparr>,
      \<lparr>Key = KeyString ''org.b:b:2.0'', DocCount = 1\<rparr>,
      \<lparr>Key = KeyString ''org:c:c:3.0'', DocCount = 1\<rparr>]"
  unfolding terms_buckets_def three_docs_def tagged_def dep_a_def by code_simp

lemma three_card: "card (Tag ` {d \<in> set three_docs. True}) = 3"
  unfolding three_docs_def tagged_def dep_a_def by code_simp

lemma three_page:
  "List.map_filter bucket_value (map Some (page_slice
      [\<lparr>Key = KeyString ''org.a:a:1.0'', DocCount = 2\<rparr>,
      \<lparr>Key = KeyString ''org.b:b:2.0'', DocCount = 1\<rparr>,
      \<lparr>Key = KeyString ''org:c:c:3.0'', DocCount = 1\<rparr>] 1 10))
   = [entry ''org.a'' ''a'' ''1.0'' 2, entry ''org.b'' ''b'' ''2.0'' 1]"
  by (simp add: page_slice_def List.map_filter_def bucket_value_def Split_def entry_def)

text \<open>Four documents with three distinct tags: the total is 3 and the page has two entries.\<close>

theorem AggrDependencyByQuery_aggregation_witness:
  "query_err three_env = None \<and> es_Version three_env \<noteq> []
   \<and> search_Do three_env = terms_search (\<lambda>d. True) three_docs
   \<and> 1 \<le> Page first_page \<and> 0 \<le> Perpage first_page \<and> Page first_page * Perpage first_page < 2 ^ 63
   \<and> 8 * Perpage first_page \<le> maxAlloc \<and> 8 * Perpage first_page \<le> free_memory three_env
   \<and> AggrDependencyByQuery three_env (Some first_page) =
       Inr (3, Some [entry ''org.a'' ''a'' ''1.0'' 2, entry ''org.b'' ''b'' ''2.0'' 1], None)"
proof -
  have h: "query_err three_env = None" "es_Version three_env \<noteq> []"
    "search_Do three_env = terms_search (\<lambda>d. True) three_docs"
    "1 \<le> Page first_page" "0 \<le> Perpage first_page" "Page first_page * Perpage first_page < 2 ^ 63"
    "8 * Perpage first_page \<le> maxAlloc" "8 * Perpage first_page \<le> free_memory three_env"
    by (simp_all add: three_env_def first_page_def maxAlloc_def)
  have p: "Page first_page = 1" "Perpage first_page = 10"
    by (simp_all add: first_page_def)
  from AggrDependencyByQuery_aggregation [OF h]
  have "AggrDependencyByQuery three_env (Some first_page) =
          Inr (int (min 10000 (card (Tag ` {d \<in> set three_docs. True}))),
               Some (List.map_filter bucket_value (map Some (page_slice
                 (terms_buckets 10000 (map Tag (filter (\<lambda>d. True) three_docs))) (Page first_page) (Perpage first_page)))),
               None)"
    by blast
  then have "AggrDependencyByQuery three_env (Some first_page) =
       Inr (3, Some [entry ''org.a'' ''a'' ''1.0'' 2, entry ''org.b'' ''b'' ''2.0'' 1], None)"
    unfolding three_buckets three_card p three_page by simp
  with h show ?thesis by blast
qed

lemma Tag_tagged: "Tag (tagged t) = t"
  by (simp add: tagged_def)

lemma many_tags: "card (Tag ` {d \<in> set many_docs. True}) = 10001"
proof -
  have i: "inj_on (\<lambda>n. ''org.a:a:'' @ replicate n CHR ''1'') (set [0..<10001])"
  proof (rule inj_onI)
    fix x y :: nat
    assume "''org.a:a:'' @ replicate x CHR ''1'' = ''org.a:a:'' @ replicate y CHR ''1''"
    then have "length (replicate x CHR ''1'') = length (replicate y CHR ''1'')"
      by simp
    then show "x = y" by simp
  qed
  have m: "map Tag many_docs = map (\<lambda>n. ''org.a:a:'' @ replicate n CHR ''1'') [0..<10001]"
    by (simp add: many_docs_def comp_def Tag_tagged del: upt.simps)
  have "distinct (map Tag many_docs)"
    unfolding m using i by (simp add: distinct_map del: upt.simps)
  then have "card (set (map Tag many_docs)) = length (map Tag many_docs)"
    by (rule distinct_card)
  also have "\<dots> = 10001" by (simp add: many_docs_def del: upt.simps)
  finally show ?thesis by simp
qed

text \<open>
  Claim C9 as stated says that the total is the number of distinct tags. With 10001
  distinct tags the total is 10000.
\<close>

theorem AggrDependencyByQuery_total_counterexample:
  "map_sum id fst (AggrDependencyByQuery many_env (Some first_page)) = Inr 10000
   \<and> card (Tag ` {d \<in> set many_docs. True}) = 10001"
proof -
  have h: "query_err many_env = None" "es_Version many_env \<noteq> []"
    "search_Do many_env = terms_search (\<lambda>d. True) many_docs"
    "1 \<le> Page first_page" "0 \<le> Perpage first_page" "Page first_page * Perpage first_page < 2 ^ 63"
    "8 * Perpage first_page \<le> maxAlloc" "8 * Perpage first_page \<le> free_memory many_env"
    by (simp_all add: many_env_def first_page_def maxAlloc_def)
  show ?thesis
    unfolding AggrDependencyByQuery_terms_search [OF h] many_tags by simp
qed


section \<open>Properties of the decision engine\<close>

subsection \<open>The cache bound\<close>

lemma remdups_snoc: "remdups (xs @ [k]) = removeAll k (remdups xs) @ [k]"
  by (induction xs) auto

lemma removeAll_take_mem:
  "distinct L \<Longrightarrow> k \<in> set (take n L) \<Longrightarrow> removeAll k (take n L) = take (n - 1) (removeAll k L)"
proof (induction L arbitrary: n)
  case Nil
  then show ?case by simp
next
  case (Cons x L)
  then obtain m where n: "n = Suc m" by (cases n) auto
  show ?case
  proof (cases "x = k")
    case True
    from Cons.prems(1) True have "k \<notin> set L" by simp
    then have "k \<notin> set (take m L)" by (auto dest: in_set_takeD)
    with \<open>k \<notin> set L\<close> True n show ?thesis by simp
  next
    case False
    with Cons.prems n have "k \<in> set (take m L)" by simp
    with Cons.IH [of m] Cons.prems(1) have "removeAll k (take m L) = take (m - 1) (removeAll k L)"
      by simp
    moreover from \<open>k \<in> set (take m L)\<close> have "0 < m" by (cases m) auto
    ultimately show ?thesis using False n by (cases m) simp_all
  qed
qed

lemma take_removeAll_notin:
  "k \<notin> set (take n L) \<Longrightarrow> take n (removeAll k L) = take n L"
proof (induction L arbitrary: n)
  case Nil
  then show ?case by simp
next
  case (Cons x L)
  show ?case
  proof (cases n)
    case 0
    then show ?thesis by simp
  next
    case (Suc m)
    with Cons.prems have "x \<noteq> k" "k \<notin> set (take m L)" by auto
    with Cons.IH [of m] Suc show ?thesis by simp
  qed
qed

lemma keys_filter: "map fst (filter (\<lambda>e. fst e \<noteq> k) es) = removeAll k (map fst es)"
  by (induction es) auto

lemma cache_keys_get_hit:
  "k \<in> set (cache_keys c) \<Longrightarrow> cache_keys (snd (cache_get k c)) = k # removeAll k (cache_keys c)"
  by (auto simp: cache_get_def cache_keys_def keys_filter split: option.splits dest: map_of_eq_None_iff [THEN iffD1])

lemma cache_get_miss:
  "k \<notin> set (cache_keys c) \<Longrightarrow> cache_get k c = (None, c)"
  by (simp add: cache_get_def cache_keys_def map_of_eq_None_iff [THEN iffD2])

lemma capacity_get: "capacity (snd (cache_get k c)) = capacity c"
  by (simp add: cache_get_def split: option.splits)

lemma capacity_put: "capacity (cache_put k d c) = capacity c"
  by (simp add: cache_put_def)

lemma cache_keys_put:
  "cache_keys (cache_put k d c) =
     (if k \<in> set (cache_keys c) then k # removeAll k (cache_keys c)
      else if length (cache_keys c) \<ge> capacity c then k # butlast (cache_keys c)
      else k # cache_keys c)"
  by (simp add: cache_put_def cache_keys_def keys_filter map_butlast)


lemma rev_remdups_snoc: "rev (remdups (tr @ [k])) = k # removeAll k (rev (remdups tr))"
  by (simp add: remdups_snoc removeAll_filter_not_eq rev_filter)

lemma touch_front:
  assumes "0 < C" "distinct L" "k \<in> set (take C L)"
  shows "k # removeAll k (take C L) = take C (k # removeAll k L)"
proof -
  from assms(1) obtain m where "C = Suc m" by (cases C) auto
  with removeAll_take_mem [OF assms(2,3)] show ?thesis by simp
qed

lemma evict_front:
  assumes "0 < C" "k \<notin> set (take C L)" "C \<le> length (take C L)"
  shows "k # butlast (take C L) = take C (k # removeAll k L)"
proof -
  from assms(1) obtain m where C: "C = Suc m" by (cases C) auto
  from assms(3) have "C \<le> length L" by simp
  then have b: "butlast (take C L) = take m L"
    using C by (simp add: butlast_take)
  from assms(2) C have "k \<notin> set (take m L)"
    by (metis in_set_takeD le_add2 plus_1_eq_Suc take_take min.absorb1 le_SucI order_refl)
  then have "take m (removeAll k L) = take m L"
    by (rule take_removeAll_notin)
  with b C show ?thesis by simp
qed

lemma insert_front:
  assumes "0 < C" "k \<notin> set (take C L)" "length (take C L) < C"
  shows "k # take C L = take C (k # removeAll k L)"
proof -
  from assms(1) obtain m where C: "C = Suc m" by (cases C) auto
  from assms(3) have l: "length L < C" by simp
  with assms(2) have "k \<notin> set L" by simp
  with l C show ?thesis by simp
qed

lemma put_step:
  assumes "0 < capacity c" "cache_keys c = take (capacity c) (rev (remdups tr))"
  shows "cache_keys (cache_put k d c) = take (capacity c) (rev (remdups (tr @ [k])))"
proof -
  let ?L = "rev (remdups tr)"
  have dL: "distinct ?L" by simp
  show ?thesis
    unfolding rev_remdups_snoc cache_keys_put assms(2)
    using touch_front [OF assms(1) dL, of k] evict_front [OF assms(1), of k ?L]
      insert_front [OF assms(1), of k ?L]
    by (simp del: distinct_rev distinct_remdups)
qed

lemma get_step:
  assumes "0 < capacity c" "cache_keys c = take (capacity c) (rev (remdups tr))"
    and "k \<in> set (cache_keys c)"
  shows "cache_keys (snd (cache_get k c)) = take (capacity c) (rev (remdups (tr @ [k])))"
proof -
  let ?L = "rev (remdups tr)"
  have dL: "distinct ?L" by simp
  from assms(3) have "k \<in> set (take (capacity c) ?L)" by (simp add: assms(2))
  from touch_front [OF assms(1) dL this] show ?thesis
    unfolding rev_remdups_snoc cache_keys_get_hit [OF assms(3)] assms(2) .
qed

lemma cache_run_lru:
  "0 < capacity c \<Longrightarrow> cache_keys c = take (capacity c) (rev (remdups tr)) \<Longrightarrow>
     cache_keys (cache_run ops c) = take (capacity c) (rev (remdups (tr @ accessed ops c)))"
proof (induction ops c arbitrary: tr rule: cache_run.induct)
  case (1 c)
  then show ?case by simp
next
  case (2 k ops c)
  show ?case
  proof (cases "k \<in> set (cache_keys c)")
    case True
    from get_step [OF "2.prems" True]
    have "cache_keys (snd (cache_get k c)) = take (capacity (snd (cache_get k c))) (rev (remdups (tr @ [k])))"
      by (simp add: capacity_get)
    from "2.IH" [OF _ this] "2.prems"(1) True show ?thesis
      by (simp add: capacity_get)
  next
    case False
    then have "cache_get k c = (None, c)" by (rule cache_get_miss)
    with "2.IH" [of tr] "2.prems" False show ?thesis by simp
  qed
next
  case (3 k d ops c)
  from put_step [OF "3.prems"]
  have "cache_keys (cache_put k d c) = take (capacity (cache_put k d c)) (rev (remdups (tr @ [k])))"
    by (simp add: capacity_put)
  from "3.IH" [OF _ this] "3.prems"(1) show ?case
    by (simp add: capacity_put)
qed

lemma cache_run_empty_lru:
  "0 < C \<Longrightarrow> cache_keys (cache_run ops (empty_cache C)) =
     take C (rev (by_last_access (accessed ops (empty_cache C))))"
  using cache_run_lru [of "empty_cache C" "[]" ops]
  by (simp add: empty_cache_def cache_keys_def by_last_access_def)

lemma set_keys_get: "set (cache_keys (snd (cache_get k c))) = set (cache_keys c)"
  by (cases "k \<in> set (cache_keys c)") (auto simp: cache_keys_get_hit cache_get_miss)

lemma set_keys_put_sub: "set (cache_keys (cache_put k d c)) \<subseteq> insert k (set (cache_keys c))"
  by (auto simp: cache_keys_put dest: in_set_butlastD)

lemma accessed_sub:
  "set (accessed ops c) \<subseteq> set (put_keys ops) \<union> set (cache_keys c)"
proof (induction ops c rule: cache_run.induct)
  case (1 c)
  then show ?case by simp
next
  case (2 k ops c)
  then show ?case by (auto simp: set_keys_get)
next
  case (3 k d ops c)
  with set_keys_put_sub [of k d c] show ?case by auto
qed

lemma put_keys_sub: "set (put_keys ops) \<subseteq> set (accessed ops c)"
  by (induction ops c rule: cache_run.induct) auto

lemma accessed_empty: "set (accessed ops (empty_cache C)) = set (put_keys ops)"
  using accessed_sub [of ops "empty_cache C"] put_keys_sub [of ops "empty_cache C"]
  by (auto simp: empty_cache_def cache_keys_def)

lemma all_but_lru:
  assumes "distinct R" "length R = Suc C"
  shows "set (take C (rev R)) = set R - {hd R}" and "hd R \<in> set R"
proof -
  from assms obtain x xs where R: "R = x # xs" by (cases R) auto
  with assms have "length (rev xs) = C" by simp
  then have "take C (rev R) = rev xs" using R by simp
  with assms(1) R show "set (take C (rev R)) = set R - {hd R}" by auto
  from R show "hd R \<in> set R" by simp
qed


lemma length_cache_keys: "length (cache_keys c) = length (entries c)"
  by (simp add: cache_keys_def)

text \<open>
  Claim C7. A cache of capacity \<open>C\<close>, at least one, that starts empty holds after any
  run the \<open>C\<close> most recently used keys, by the order of access. So after a run that
  inserts \<open>C + 1\<close> distinct keys exactly one of them is absent, the least recently
  used one by the order of access. A put of a new key on a full cache evicts exactly the
  last entry in that order before it inserts; a put of a present key or on a cache that
  is not full removes no key, and neither does a get. No operation depends on time.
\<close>

theorem decision_cache_lru:
  assumes "0 < C"
  shows "cache_keys (cache_run ops (empty_cache C)) =
           take C (rev (by_last_access (accessed ops (empty_cache C))))
       \<and> (card (set (put_keys ops)) = C + 1 \<longrightarrow>
            set (cache_keys (cache_run ops (empty_cache C))) =
              set (put_keys ops) - {hd (by_last_access (accessed ops (empty_cache C)))}
          \<and> hd (by_last_access (accessed ops (empty_cache C))) \<in> set (put_keys ops))
       \<and> (capacity c = C \<and> length (entries c) = C \<and> k \<notin> set (cache_keys c) \<longrightarrow>
            cache_keys (cache_put k d c) = k # butlast (cache_keys c))
       \<and> (k \<in> set (cache_keys c) \<or> length (entries c) < capacity c \<longrightarrow>
            set (cache_keys (cache_put k d c)) = insert k (set (cache_keys c)))
       \<and> set (cache_keys (snd (cache_get k c))) = set (cache_keys c)"
proof (intro conjI impI)
  show 1: "cache_keys (cache_run ops (empty_cache C)) =
           take C (rev (by_last_access (accessed ops (empty_cache C))))"
    using assms by (rule cache_run_empty_lru)
  {
    assume c: "card (set (put_keys ops)) = C + 1"
    let ?R = "by_last_access (accessed ops (empty_cache C))"
    have d: "distinct ?R" by (simp add: by_last_access_def)
    have s: "set ?R = set (put_keys ops)" by (simp add: by_last_access_def accessed_empty)
    from d s c have l: "length ?R = Suc C"
      by (metis distinct_card Suc_eq_plus1)
    from all_but_lru [OF d l] s
    show "set (cache_keys (cache_run ops (empty_cache C))) = set (put_keys ops) - {hd ?R}"
      and "hd ?R \<in> set (put_keys ops)"
      unfolding 1 by simp_all
  }
  show "cache_keys (cache_put k d c) = k # butlast (cache_keys c)"
    if "capacity c = C \<and> length (entries c) = C \<and> k \<notin> set (cache_keys c)"
    using that length_cache_keys [of c] by (simp add: cache_keys_put)
  show "set (cache_keys (cache_put k d c)) = insert k (set (cache_keys c))"
    if "k \<in> set (cache_keys c) \<or> length (entries c) < capacity c"
    using that length_cache_keys [of c] by (auto simp: cache_keys_put)
  show "set (cache_keys (snd (cache_get k c))) = set (cache_keys c)"
    by (rule set_keys_get)
qed

lemma lru_ops_run:
  "cache_keys (cache_run lru_ops (empty_cache 2)) = [''c'', ''a'']"
  by (simp add: lru_ops_def empty_cache_def cache_put_def cache_get_def cache_keys_def)

lemma lru_ops_accessed:
  "accessed lru_ops (empty_cache 2) = [''a'', ''b'', ''a'', ''c'']"
  by (simp add: lru_ops_def empty_cache_def cache_put_def cache_get_def cache_keys_def)

text \<open>
  Capacity two: \<open>a\<close> and \<open>b\<close> are put, \<open>a\<close> is looked up, \<open>c\<close> is put. The key
  that is absent is \<open>b\<close>, not \<open>a\<close>, which was inserted first.
\<close>

theorem decision_cache_lru_witness:
  "(0::nat) < 2 \<and> card (set (put_keys lru_ops)) = 2 + 1
   \<and> hd (by_last_access (accessed lru_ops (empty_cache 2))) = ''b''
   \<and> set (cache_keys (cache_run lru_ops (empty_cache 2))) = {''a'', ''b'', ''c''} - {''b''}
   \<and> cache_keys (cache_run lru_ops (empty_cache 2)) = [''c'', ''a'']"
proof -
  have p: "(0::nat) < 2" by simp
  have k: "set (put_keys lru_ops) = {''a'', ''b'', ''c''}"
    by (auto simp: lru_ops_def)
  have c: "card (set (put_keys lru_ops)) = 2 + 1"
    unfolding k by simp
  have h: "hd (by_last_access (accessed lru_ops (empty_cache 2))) = ''b''"
    by (simp add: lru_ops_accessed by_last_access_def)
  from decision_cache_lru [OF p, of lru_ops] c
  have "set (cache_keys (cache_run lru_ops (empty_cache 2))) =
          set (put_keys lru_ops) - {hd (by_last_access (accessed lru_ops (empty_cache 2)))}"
    by blast
  with p c h k lru_ops_run show ?thesis by simp
qed


subsection \<open>Deciding twice\<close>








subsection \<open>Cache keys\<close>

lemma hd_type_prefix:
  "hd (type_prefix t @ s) = (case t of COMMAND \<Rightarrow> CHR ''C'' | FILE \<Rightarrow> CHR ''F'' | SQL \<Rightarrow> CHR ''S''
      | DESERIALIZATION \<Rightarrow> CHR ''D'')"
  by (cases t) (simp_all add: type_prefix_def)

text \<open>
  Claim C5. The key starts with the operation type, so the keys of two checks of
  different operation types differ, whatever their fields and their serialization.
\<close>

theorem deriveKey_namespaced:
  assumes "ptype p \<noteq> ptype q"
  shows "deriveKey serialize p \<noteq> deriveKey serialize' q"
proof
  assume "deriveKey serialize p = deriveKey serialize' q"
  then have "hd (type_prefix (ptype p) @ serialize (salient (pfields p))) =
             hd (type_prefix (ptype q) @ serialize' (salient (pfields q)))"
    by (simp add: deriveKey_def)
  with assms show False
    unfolding hd_type_prefix by (cases "ptype p"; cases "ptype q") simp_all
qed

text \<open>The command \<open>rm -rf /\<close> and the file path \<open>rm -rf /\<close> have different keys.\<close>

theorem deriveKey_namespaced_witness:
  "ptype command_rm \<noteq> ptype file_rm
   \<and> deriveKey field_values command_rm \<noteq> deriveKey field_values file_rm
   \<and> deriveKey field_values command_rm = ''COMMANDrm -rf /''
   \<and> deriveKey field_values file_rm = ''FILErm -rf /''"
proof -
  have t: "ptype command_rm \<noteq> ptype file_rm"
    by (simp add: command_rm_def file_rm_def)
  from deriveKey_namespaced [OF t, of field_values field_values] t show ?thesis
    by (simp add: deriveKey_def type_prefix_def salient_def field_values_def command_rm_def file_rm_def)
qed

subsection \<open>Stack capture\<close>

text \<open>
  Claim C8. For every start offset and maximum depth, \<open>capture\<close> returns at most
  \<open>maxDepth\<close> frames, and it always returns: the empty sequence when the stack cannot
  be inspected and when there is no frame at or above the start offset, and otherwise
  the first \<open>maxDepth\<close> frames from the start offset on.
\<close>

theorem capture_bounded:
  "length (capture stack startOffset maxDepth) \<le> maxDepth
   \<and> capture None startOffset maxDepth = []
   \<and> (\<forall>frames. stack = Some frames \<and> length frames \<le> startOffset
        \<longrightarrow> capture stack startOffset maxDepth = [])
   \<and> (\<forall>frames. stack = Some frames
        \<longrightarrow> capture stack startOffset maxDepth = take maxDepth (drop startOffset frames))"
  by (auto simp: capture_def split: option.splits)

text \<open>Seven frames and a depth of five; one frame and an offset of one.\<close>

theorem capture_bounded_witness:
  "capture (Some [''f1'', ''f2'', ''f3'', ''f4'', ''f5'', ''f6'', ''f7'']) 0 5 = [''f1'', ''f2'', ''f3'', ''f4'', ''f5'']
   \<and> length [''f1''] \<le> (1::nat) \<and> capture (Some [''f1'']) 1 5 = []"
  using capture_bounded [of "Some [''f1'', ''f2'', ''f3'', ''f4'', ''f5'', ''f6'', ''f7'']" 0 5]
    capture_bounded [of "Some [''f1'']" 1 5]
  by simp


end
